theory Spec2Isabelle
  imports Main
begin

section \<open>Go runtime notions used by package loquet\<close>

text \<open>
  A Go panic ends the call; the model returns it as the left summand. The constructors
  are the run-time panics the package can raise: a store through an index outside the
  length of a slice, a \<^verbatim>\<open>make\<close> of a slice with a negative capacity, the explicit
  \<^verbatim>\<open>panic("...")\<close> of \<^verbatim>\<open>NewChan\<close>, and the two panics of the builtin \<^verbatim>\<open>close\<close>.
  An unrecovered panic ends the program; a caller can also recover from it and go on
  with the latch as the panicking call left it. \<open>InvalidChannel\<close> is the closing of a handle
  that no \<^verbatim>\<open>make\<close> returned; Go has no such handle, the constructor only makes
  \<open>close_chan\<close> total.
\<close>

datatype panic =
    IndexOutOfRange int nat
  | MakeSliceCapOutOfRange
  | PanicMsg string
  | CloseOfNilChannel
  | CloseOfClosedChannel
  | InvalidChannel

text \<open>The package's only error value, \<^verbatim>\<open>ErrAlreadyClosed\<close>; a nil error is \<open>None\<close>.\<close>

datatype error = ErrAlreadyClosed

text \<open>
  Channels of type \<^verbatim>\<open>chan struct{}\<close> on which nothing is ever sent: all that can be
  observed of one is whether it has been closed. The store of channels is a list of
  flags, entry \<open>i\<close> telling whether channel \<open>i\<close> is closed; a channel value is
  \<open>Some i\<close>, or \<open>None\<close> for the nil channel. \<^verbatim>\<open>make(chan struct{})\<close> appends an
  open channel, so handles given out earlier keep their meaning.
\<close>

type_synonym chan_heap = "bool list"

definition make_chan :: "chan_heap \<Rightarrow> nat option \<times> chan_heap" where
  "make_chan h = (Some (length h), h @ [False])"

definition close_chan :: "nat option \<Rightarrow> chan_heap \<Rightarrow> panic + chan_heap" where
  "close_chan c h =
     (case c of
        None \<Rightarrow> Inl CloseOfNilChannel
      | Some i \<Rightarrow>
          if i < length h
          then (if h ! i then Inl CloseOfClosedChannel else Inr (h[i := True]))
          else Inl InvalidChannel)"

text \<open>What a receiver sees: a receive from a closed channel completes, one from an open
  or nil channel blocks.\<close>

definition chan_fired :: "chan_heap \<Rightarrow> nat option \<Rightarrow> bool" where
  "chan_fired h c = (case c of None \<Rightarrow> False | Some i \<Rightarrow> i < length h \<and> h ! i)"

text \<open>
  Go's \<^verbatim>\<open>int\<close>, taken at its 64-bit width: \<^verbatim>\<open>v++\<close> wraps from the largest value to
  the smallest.
\<close>

definition int_max :: int where
  "int_max = 2 ^ 63 - 1"

definition int_min :: int where
  "int_min = - (2 ^ 63)"

definition int_inc :: "int \<Rightarrow> int" where
  "int_inc v = (if v = int_max then int_min else v + 1)"

text \<open>
  \<^verbatim>\<open>make([]E, 0, cap)\<close>: a slice of length 0; a negative capacity panics. The bound
  that the size of memory puts on the capacity is left out: beyond it the call ends in
  a panic or a fatal error as well.
\<close>

definition make_empty_slice :: "int \<Rightarrow> panic + 'b list" where
  "make_empty_slice cap = (if cap < 0 then Inl MakeSliceCapOutOfRange else Inr [])"

text \<open>A store \<^verbatim>\<open>s[i] = v\<close> into a slice panics unless \<open>0 \<le> i < len(s)\<close>; the capacity
  plays no part.\<close>

definition slice_store :: "'b list \<Rightarrow> int \<Rightarrow> 'b \<Rightarrow> panic + 'b list" where
  "slice_store s i v =
     (if 0 \<le> i \<and> i < int (length s) then Inr (s[nat i := v])
      else Inl (IndexOutOfRange i (length s)))"

text \<open>The builtin \<^verbatim>\<open>copy(dst, src)\<close>: it overwrites the first
  \<open>min (len dst) (len src)\<close> elements of \<open>dst\<close> and returns that number.\<close>

definition go_copy :: "'b list \<Rightarrow> 'b list \<Rightarrow> 'b list \<times> nat" where
  "go_copy dst src =
     (let n = min (length dst) (length src) in (take n src @ drop n dst, n))"

section \<open>The type \<^verbatim>\<open>Chan[T]\<close> of loquet.go\<close>

text \<open>
  A value of type \<^verbatim>\<open>*T\<close> is \<open>'a option\<close>, \<open>None\<close> being the nil pointer. The mutex
  \<^verbatim>\<open>mut\<close> is held for the whole body of every method, so each method is one atomic
  step on the fields and on the store of channels.
\<close>

record 'a VersionVal =
  Version :: int
  Val :: "'a option"

record 'a Chan =
  whenClosed :: "nat option"
  closeVal :: "'a option"
  isClosed :: bool
  retain :: int
  version :: int
  past :: "'a VersionVal list"

text \<open>
  \<^verbatim>\<open>NewChan\<close>: the struct literal leaves \<^verbatim>\<open>version\<close>, \<^verbatim>\<open>isClosed\<close> and
  \<^verbatim>\<open>past\<close> at their zero values. For a positive \<^verbatim>\<open>retain\<close> the slice is made with
  length 0 and capacity \<^verbatim>\<open>retain+1\<close>, and then element 0 of it is assigned.
\<close>

definition NewChan :: "'a option \<Rightarrow> int \<Rightarrow> chan_heap \<Rightarrow> panic + ('a Chan \<times> chan_heap)" where
  "NewChan cv retainVersions h =
     (let (c, h1) = make_chan h;
          f = \<lparr>whenClosed = c, closeVal = cv, isClosed = False,
               retain = retainVersions, version = 0, past = []\<rparr>
      in if retain f > 0
         then (case make_empty_slice (int_inc (retain f)) of
                 Inl e \<Rightarrow> Inl e
               | Inr p0 \<Rightarrow>
                   (case slice_store p0 0 \<lparr>Version = version f, Val = cv\<rparr> of
                      Inl e \<Rightarrow> Inl e
                    | Inr p \<Rightarrow> Inr (f\<lparr>past := p\<rparr>, h1)))
         else if retain f < 0
         then Inl (PanicMsg ''retainVersions cannot be negative'')
         else Inr (f, h1))"

text \<open>
  The block that \<^verbatim>\<open>Close\<close>, \<^verbatim>\<open>Set\<close>, \<^verbatim>\<open>SetIfOpen\<close>, \<^verbatim>\<open>ReOpen\<close> and
  \<^verbatim>\<open>SetAndClose\<close> each repeat after \<^verbatim>\<open>f.version++\<close>: append the new version, then
  drop the oldest entry if the slice became longer than \<^verbatim>\<open>retain\<close>.
\<close>

definition record_past :: "'a option \<Rightarrow> 'a Chan \<Rightarrow> 'a Chan" where
  "record_past cv f =
     (if retain f > 0
      then (let p = past f @ [\<lparr>Version = version f, Val = cv\<rparr>]
            in f\<lparr>past := (if int (length p) > retain f then tl p else p)\<rparr>)
      else f)"

text \<open>The three statements \<^verbatim>\<open>f.closeVal = closeVal; f.version++; if f.retain > 0 {...}\<close>.\<close>

definition store_val :: "'a option \<Rightarrow> 'a Chan \<Rightarrow> 'a Chan" where
  "store_val cv f =
     record_past cv ((f\<lparr>closeVal := cv\<rparr>)\<lparr>version := int_inc (version f)\<rparr>)"

definition Chan_WhenClosed :: "'a Chan \<Rightarrow> nat option" where
  "Chan_WhenClosed f = whenClosed f"

definition Chan_Close ::
  "'a option \<Rightarrow> 'a Chan \<times> chan_heap \<Rightarrow> panic + (error option \<times> 'a Chan \<times> chan_heap)" where
  "Chan_Close cv s =
     (let (f, h) = s in
      if isClosed f then Inr (Some ErrAlreadyClosed, f, h)
      else
        let f1 = f\<lparr>isClosed := True\<rparr>;
            f2 = (if cv \<noteq> None then store_val cv f1 else f1)
        in case close_chan (whenClosed f2) h of
             Inl e \<Rightarrow> Inl e
           | Inr h' \<Rightarrow> Inr (None, f2, h'))"

definition Chan_Set :: "'a option \<Rightarrow> 'a Chan \<Rightarrow> 'a option \<times> 'a Chan" where
  "Chan_Set cv f = (closeVal f, store_val cv f)"

definition Chan_SetIfOpen :: "'a option \<Rightarrow> 'a Chan \<Rightarrow> 'a option \<times> 'a Chan" where
  "Chan_SetIfOpen cv f =
     (if isClosed f then (closeVal f, f) else (closeVal f, store_val cv f))"

definition Chan_Read :: "'a Chan \<Rightarrow> 'a option \<times> bool" where
  "Chan_Read f = (closeVal f, isClosed f)"

definition Chan_ReadVersion :: "'a Chan \<Rightarrow> 'a option \<times> bool \<times> int" where
  "Chan_ReadVersion f = (closeVal f, isClosed f, version f)"

text \<open>\<^verbatim>\<open>ReadPast\<close> writes into the caller's slice \<open>d\<close>; the model returns the new
  contents of \<open>d\<close> with the count.\<close>

definition Chan_ReadPast :: "'a VersionVal list \<Rightarrow> 'a Chan \<Rightarrow> 'a VersionVal list \<times> nat" where
  "Chan_ReadPast d f = go_copy d (past f)"

definition Chan_ReOpen :: "'a option \<Rightarrow> 'a Chan \<times> chan_heap \<Rightarrow> 'a Chan \<times> chan_heap" where
  "Chan_ReOpen cv s =
     (let (f, h) = s;
          f1 = store_val cv f
      in if \<not> isClosed f1 then (f1, h)
         else (let (c, h1) = make_chan h
               in (f1\<lparr>isClosed := False, whenClosed := c\<rparr>, h1)))"

definition Chan_Open :: "'a Chan \<times> chan_heap \<Rightarrow> 'a Chan \<times> chan_heap" where
  "Chan_Open s =
     (let (f, h) = s
      in if \<not> isClosed f then (f, h)
         else (let (c, h1) = make_chan h
               in (f\<lparr>isClosed := False, whenClosed := c\<rparr>, h1)))"

definition Chan_SetAndClose ::
  "'a option \<Rightarrow> 'a Chan \<times> chan_heap \<Rightarrow> panic + (error option \<times> 'a Chan \<times> chan_heap)" where
  "Chan_SetAndClose cv s =
     (let (f, h) = s in
      if isClosed f then Inr (Some ErrAlreadyClosed, f, h)
      else
        let f1 = store_val cv f;
            f2 = f1\<lparr>isClosed := True\<rparr>
        in case close_chan (whenClosed f2) h of
             Inl e \<Rightarrow> Inl e
           | Inr h' \<Rightarrow> Inr (None, f2, h'))"

text \<open>
  The consistency of a latch with the store of channels: the installed channel is one
  that \<^verbatim>\<open>make\<close> returned, and it is closed exactly when \<^verbatim>\<open>isClosed\<close> is set.
\<close>

definition chan_ok :: "'a Chan \<times> chan_heap \<Rightarrow> bool" where
  "chan_ok s =
     (let (f, h) = s
      in case whenClosed f of
           None \<Rightarrow> False
         | Some i \<Rightarrow> i < length h \<and> (h ! i \<longleftrightarrow> isClosed f))"

section \<open>Sequences of calls on one \<^verbatim>\<open>Chan\<close>\<close>

text \<open>
  The exported methods of \<^verbatim>\<open>*Chan[T]\<close>, with their arguments. \<open>step\<close> is the effect
  of one call on the latch and the channels, its return value dropped; the three
  readers and \<^verbatim>\<open>WhenClosed\<close> assign no field. \<open>run\<close> performs calls in order and
  stops at the first panic.
\<close>

datatype 'a call =
    CallClose "'a option"
  | CallSetAndClose "'a option"
  | CallSet "'a option"
  | CallSetIfOpen "'a option"
  | CallRead
  | CallReadVersion
  | CallReadPast "'a VersionVal list"
  | CallOpen
  | CallReOpen "'a option"
  | CallWhenClosed

fun step :: "'a call \<Rightarrow> 'a Chan \<times> chan_heap \<Rightarrow> panic + ('a Chan \<times> chan_heap)" where
  "step (CallClose cv) s = (case Chan_Close cv s of Inl e \<Rightarrow> Inl e | Inr r \<Rightarrow> Inr (snd r))"
| "step (CallSetAndClose cv) s =
     (case Chan_SetAndClose cv s of Inl e \<Rightarrow> Inl e | Inr r \<Rightarrow> Inr (snd r))"
| "step (CallSet cv) s = Inr (snd (Chan_Set cv (fst s)), snd s)"
| "step (CallSetIfOpen cv) s = Inr (snd (Chan_SetIfOpen cv (fst s)), snd s)"
| "step CallRead s = Inr s"
| "step CallReadVersion s = Inr s"
| "step (CallReadPast d) s = Inr s"
| "step CallOpen s = Inr (Chan_Open s)"
| "step (CallReOpen cv) s = Inr (Chan_ReOpen cv s)"
| "step CallWhenClosed s = Inr s"

fun run :: "'a call list \<Rightarrow> 'a Chan \<times> chan_heap \<Rightarrow> panic + ('a Chan \<times> chan_heap)" where
  "run [] s = Inr s"
| "run (c # cs) s = (case step c s of Inl e \<Rightarrow> Inl e | Inr s' \<Rightarrow> run cs s')"

text \<open>
  The calls that replace the payload, that is, that reach the assignment
  \<^verbatim>\<open>f.closeVal = closeVal\<close>: \<^verbatim>\<open>Set\<close> and \<^verbatim>\<open>ReOpen\<close> always, \<^verbatim>\<open>SetIfOpen\<close> and
  \<^verbatim>\<open>SetAndClose\<close> on an open latch, \<^verbatim>\<open>Close\<close> on an open latch with a payload that
  is not nil.
\<close>

fun mutates :: "'a call \<Rightarrow> 'a Chan \<Rightarrow> bool" where
  "mutates (CallClose cv) f = (\<not> isClosed f \<and> cv \<noteq> None)"
| "mutates (CallSetAndClose cv) f = (\<not> isClosed f)"
| "mutates (CallSet cv) f = True"
| "mutates (CallSetIfOpen cv) f = (\<not> isClosed f)"
| "mutates (CallReOpen cv) f = True"
| "mutates c f = False"

text \<open>The payload a call passes, nil for the calls that pass none.\<close>

fun call_val :: "'a call \<Rightarrow> 'a option" where
  "call_val (CallClose cv) = cv"
| "call_val (CallSetAndClose cv) = cv"
| "call_val (CallSet cv) = cv"
| "call_val (CallSetIfOpen cv) = cv"
| "call_val (CallReOpen cv) = cv"
| "call_val c = None"

section \<open>The type \<^verbatim>\<open>Loquet[T]\<close> with the lazily allocated channel\<close>

text \<open>
  The second \<^verbatim>\<open>Loquet\<close> of loquet.go: \<^verbatim>\<open>NewLoquet\<close> sets \<^verbatim>\<open>closeVal\<close> only, so
  \<^verbatim>\<open>ch\<close> is the nil channel until \<^verbatim>\<open>WhenClosed\<close> makes one. Its methods carry the
  prefix \<open>Loquet_\<close>, its fields the prefix \<open>lq_\<close>.
\<close>

record 'a Loquet =
  lq_ch :: "nat option"
  lq_closeVal :: "'a option"
  lq_isClosed :: bool

definition NewLoquet :: "'a option \<Rightarrow> 'a Loquet" where
  "NewLoquet cv = \<lparr>lq_ch = None, lq_closeVal = cv, lq_isClosed = False\<rparr>"

text \<open>
  \<^verbatim>\<open>Close\<close> assigns \<^verbatim>\<open>isClosed\<close>, and \<^verbatim>\<open>closeVal\<close> for a payload that is not nil,
  before it closes the channel, and its deferred \<^verbatim>\<open>Unlock\<close> runs when that close
  panics. A panic therefore leaves the latch with these assignments made and the mutex
  free: the left summand carries the panic together with the state it leaves.
\<close>

definition Loquet_Close ::
  "'a option \<Rightarrow> 'a Loquet \<times> chan_heap \<Rightarrow>
     (panic \<times> 'a Loquet \<times> chan_heap) + ('a Loquet \<times> chan_heap)" where
  "Loquet_Close cv s =
     (let (f, h) = s in
      if lq_isClosed f then Inr (f, h)
      else
        let f1 = f\<lparr>lq_isClosed := True\<rparr>;
            f2 = (if cv \<noteq> None then f1\<lparr>lq_closeVal := cv\<rparr> else f1)
        in case close_chan (lq_ch f2) h of
             Inl e \<Rightarrow> Inl (e, f2, h)
           | Inr h' \<Rightarrow> Inr (f2, h'))"

definition Loquet_Set :: "'a option \<Rightarrow> 'a Loquet \<Rightarrow> 'a option \<times> 'a Loquet" where
  "Loquet_Set cv f = (lq_closeVal f, f\<lparr>lq_closeVal := cv\<rparr>)"

definition Loquet_SetIfOpen :: "'a option \<Rightarrow> 'a Loquet \<Rightarrow> 'a option \<times> 'a Loquet" where
  "Loquet_SetIfOpen cv f =
     (if lq_isClosed f then (lq_closeVal f, f) else (lq_closeVal f, f\<lparr>lq_closeVal := cv\<rparr>))"

definition Loquet_Read :: "'a Loquet \<Rightarrow> 'a option \<times> bool" where
  "Loquet_Read f = (lq_closeVal f, lq_isClosed f)"

definition Loquet_WhenClosed ::
  "'a Loquet \<times> chan_heap \<Rightarrow> nat option \<times> 'a Loquet \<times> chan_heap" where
  "Loquet_WhenClosed s =
     (let (f, h) = s in
      if lq_ch f = None
      then (let (c, h1) = make_chan h in (c, f\<lparr>lq_ch := c\<rparr>, h1))
      else (lq_ch f, f, h))"

datatype 'a lq_call =
    LqClose "'a option"
  | LqSet "'a option"
  | LqSetIfOpen "'a option"
  | LqRead
  | LqWhenClosed

fun lq_step ::
  "'a lq_call \<Rightarrow> 'a Loquet \<times> chan_heap \<Rightarrow>
     (panic \<times> 'a Loquet \<times> chan_heap) + ('a Loquet \<times> chan_heap)" where
  "lq_step (LqClose cv) s = Loquet_Close cv s"
| "lq_step (LqSet cv) s = Inr (snd (Loquet_Set cv (fst s)), snd s)"
| "lq_step (LqSetIfOpen cv) s = Inr (snd (Loquet_SetIfOpen cv (fst s)), snd s)"
| "lq_step LqRead s = Inr s"
| "lq_step LqWhenClosed s = Inr (snd (Loquet_WhenClosed s))"

text \<open>
  A sequence of calls by callers that recover from a panic: each call starts from the
  state the call before it left, whether that call returned or panicked. The result
  lists, call by call, the panic raised (\<open>None\<close> for a call that returned), with the
  final state. A program that does not recover ends at the first panic in the list.
\<close>

definition lq_after ::
  "(panic \<times> 'a Loquet \<times> chan_heap) + ('a Loquet \<times> chan_heap) \<Rightarrow> 'a Loquet \<times> chan_heap" where
  "lq_after r = (case r of Inl (e, s) \<Rightarrow> s | Inr s \<Rightarrow> s)"

definition lq_panic ::
  "(panic \<times> 'a Loquet \<times> chan_heap) + ('a Loquet \<times> chan_heap) \<Rightarrow> panic option" where
  "lq_panic r = (case r of Inl (e, s) \<Rightarrow> Some e | Inr s \<Rightarrow> None)"

fun lq_run ::
  "'a lq_call list \<Rightarrow> 'a Loquet \<times> chan_heap \<Rightarrow>
     panic option list \<times> 'a Loquet \<times> chan_heap" where
  "lq_run [] s = ([], s)"
| "lq_run (c # cs) s =
     (let r = lq_step c s;
          (os, t) = lq_run cs (lq_after r)
      in (lq_panic r # os, t))"

section \<open>Construction\<close>

lemma NewChan_zero:
  "NewChan cv 0 h =
     Inr (\<lparr>whenClosed = Some (length h), closeVal = cv, isClosed = False,
           retain = 0, version = 0, past = []\<rparr>, h @ [False])"
  by (simp add: NewChan_def make_chan_def)

lemma NewChan_positive:
  "0 < r \<Longrightarrow>
   NewChan cv r h =
     Inl (if r = int_max then MakeSliceCapOutOfRange else IndexOutOfRange 0 0)"
  by (simp add: NewChan_def make_chan_def make_empty_slice_def slice_store_def int_inc_def
      int_min_def)

lemma NewChan_Inr_iff:
  "(\<exists>s. NewChan cv r h = Inr s) \<longleftrightarrow> r = 0"
proof (cases "0 < r")
  case True
  then show ?thesis by (simp add: NewChan_positive)
next
  case False
  then show ?thesis
    by (cases "r < 0") (auto simp: NewChan_def make_chan_def)
qed

text \<open>
  Claim C8. For every initial payload and every negative retention count, \<^verbatim>\<open>NewChan\<close>
  panics with its own message and returns no latch, whatever channels exist.
\<close>

theorem NewChan_negative_panics:
  "r < 0 \<Longrightarrow> NewChan cv r h = Inl (PanicMsg ''retainVersions cannot be negative'')"
  by (simp add: NewChan_def make_chan_def)

theorem NewChan_negative_panics_witness:
  "(-1::int) < 0 \<and>
   NewChan (Some (7::nat)) (-1) [] = Inl (PanicMsg ''retainVersions cannot be negative'')"
  using NewChan_negative_panics [of "-1" "Some (7::nat)" "[]"] by simp

text \<open>
  Claim C1. The claim asks that \<^verbatim>\<open>NewChan(p, r)\<close> with \<open>r > 0\<close> return an open latch at
  version 0 whose history is the one entry \<open>(0, p)\<close>. The code assigns \<^verbatim>\<open>f.past[0]\<close> on
  a slice of length 0: at \<open>r = 1\<close> the call panics with an index out of range and no
  latch is returned.
\<close>

theorem NewChan_retain_one_panics:
  "NewChan (Some (7::nat)) 1 [] = Inl (IndexOutOfRange 0 0)"
  by (simp add: NewChan_def make_chan_def make_empty_slice_def slice_store_def int_inc_def
      int_max_def)

section \<open>Storing a payload\<close>

lemma store_val_fields:
  "whenClosed (store_val cv f) = whenClosed f"
  "closeVal (store_val cv f) = cv"
  "isClosed (store_val cv f) = isClosed f"
  "retain (store_val cv f) = retain f"
  "version (store_val cv f) = int_inc (version f)"
  by (simp_all add: store_val_def record_past_def Let_def)

lemma store_val_past:
  "past (store_val cv f) =
     (if 0 < retain f
      then (if retain f < int (length (past f)) + 1
            then tl (past f @ [\<lparr>Version = int_inc (version f), Val = cv\<rparr>])
            else past f @ [\<lparr>Version = int_inc (version f), Val = cv\<rparr>])
      else past f)"
  by (simp add: store_val_def record_past_def Let_def)

lemma store_val_past_last:
  assumes "0 < retain f"
  shows "past (store_val cv f) \<noteq> []"
    and "last (past (store_val cv f)) = \<lparr>Version = int_inc (version f), Val = cv\<rparr>"
proof -
  let ?x = "\<lparr>Version = int_inc (version f), Val = cv\<rparr>"
  show "past (store_val cv f) \<noteq> []"
  proof (cases "past f")
    case Nil
    with assms show ?thesis by (simp add: store_val_past)
  next
    case (Cons a as)
    with assms show ?thesis by (simp add: store_val_past)
  qed
  show "last (past (store_val cv f)) = ?x"
  proof (cases "past f")
    case Nil
    with assms show ?thesis by (simp add: store_val_past)
  next
    case (Cons a as)
    with assms show ?thesis by (simp add: store_val_past)
  qed
qed

section \<open>Close, SetAndClose, Read, ReadPast\<close>

text \<open>
  Claim C2. On a latch that is already closed, \<^verbatim>\<open>Close(v)\<close> returns
  \<^verbatim>\<open>ErrAlreadyClosed\<close> for every \<open>v\<close>, nil or not, and the latch and the store of
  channels are returned as they were: payload, closed flag, version, history and signal
  handle are all unchanged. The witness closes an open latch with payload 2 and then
  closes it again with payload 3: the stored payload stays 2.
\<close>

theorem Close_already_closed:
  "isClosed f \<Longrightarrow> Chan_Close cv (f, h) = Inr (Some ErrAlreadyClosed, f, h)"
  by (simp add: Chan_Close_def)

theorem Close_already_closed_witness:
  "isClosed \<lparr>whenClosed = Some 0, closeVal = Some (2::nat), isClosed = True,
             retain = 0, version = 1, past = []\<rparr> \<and>
   Chan_Close (Some 2) (\<lparr>whenClosed = Some 0, closeVal = Some (1::nat), isClosed = False,
             retain = 0, version = 0, past = []\<rparr>, [False])
     = Inr (None, \<lparr>whenClosed = Some 0, closeVal = Some 2, isClosed = True,
             retain = 0, version = 1, past = []\<rparr>, [True]) \<and>
   Chan_Close (Some 3) (\<lparr>whenClosed = Some 0, closeVal = Some (2::nat), isClosed = True,
             retain = 0, version = 1, past = []\<rparr>, [True])
     = Inr (Some ErrAlreadyClosed,
            \<lparr>whenClosed = Some 0, closeVal = Some 2, isClosed = True,
             retain = 0, version = 1, past = []\<rparr>, [True])"
  using Close_already_closed [of "\<lparr>whenClosed = Some 0, closeVal = Some (2::nat),
             isClosed = True, retain = 0, version = 1, past = []\<rparr>" "Some 3" "[True]"]
  by (simp add: Chan_Close_def store_val_def record_past_def close_chan_def int_inc_def
      int_max_def)

text \<open>
  Claim C3. \<^verbatim>\<open>NewChan(X, 0)\<close> returns a latch on which \<^verbatim>\<open>Read\<close> gives
  \<open>(X, false)\<close>; a first \<^verbatim>\<open>Close(nil)\<close> on it succeeds and \<^verbatim>\<open>Read\<close> then gives
  \<open>(X, true)\<close>; a first \<^verbatim>\<open>Close(Y)\<close> with \<open>Y\<close> not nil on the fresh latch succeeds
  and \<^verbatim>\<open>Read\<close> then gives \<open>(Y, true)\<close>. \<open>X\<close> may be nil.
\<close>

theorem create_close_read_roundtrip:
  "\<exists>f h1. NewChan x 0 h = Inr (f, h1) \<and> Chan_Read f = (x, False) \<and>
     (\<exists>f' h'. Chan_Close None (f, h1) = Inr (None, f', h') \<and> Chan_Read f' = (x, True)) \<and>
     (\<exists>f' h'. Chan_Close (Some y) (f, h1) = Inr (None, f', h') \<and>
               Chan_Read f' = (Some y, True))"
  by (simp add: NewChan_zero Chan_Read_def Chan_Close_def close_chan_def store_val_fields)

theorem create_close_read_roundtrip_witness:
  "\<exists>f h1. NewChan (Some (1::nat)) 0 [] = Inr (f, h1) \<and> Chan_Read f = (Some 1, False) \<and>
     (\<exists>f' h'. Chan_Close None (f, h1) = Inr (None, f', h') \<and>
               Chan_Read f' = (Some 1, True)) \<and>
     (\<exists>f' h'. Chan_Close (Some 2) (f, h1) = Inr (None, f', h') \<and>
               Chan_Read f' = (Some 2, True))"
  using create_close_read_roundtrip [of "Some (1::nat)" "[]" 2] by simp

text \<open>
  Claim C7. On an open latch \<^verbatim>\<open>SetAndClose(v)\<close> returns a nil error and, in one step,
  stores \<open>v\<close> (nil included), increments the version, appends \<open>(version, v)\<close> to the
  history when \<^verbatim>\<open>retain\<close> is positive (and leaves the history alone otherwise), sets
  the closed flag and closes the installed channel, which was open before; no other
  channel changes. On a closed latch it returns \<^verbatim>\<open>ErrAlreadyClosed\<close> and the latch and
  the channels are returned unchanged. The increment is Go's: it is \<open>+ 1\<close> below the
  largest \<^verbatim>\<open>int\<close>.
\<close>

theorem SetAndClose_spec:
  "chan_ok (f, h) \<Longrightarrow>
   (isClosed f \<longrightarrow> Chan_SetAndClose cv (f, h) = Inr (Some ErrAlreadyClosed, f, h)) \<and>
   (\<not> isClosed f \<longrightarrow>
      (\<exists>f' h' i. Chan_SetAndClose cv (f, h) = Inr (None, f', h') \<and>
         closeVal f' = cv \<and>
         version f' = int_inc (version f) \<and>
         (version f < int_max \<longrightarrow> version f' = version f + 1) \<and>
         (0 < retain f \<longrightarrow>
            past f' \<noteq> [] \<and> last (past f') = \<lparr>Version = version f', Val = cv\<rparr>) \<and>
         (retain f \<le> 0 \<longrightarrow> past f' = past f) \<and>
         retain f' = retain f \<and>
         isClosed f' \<and>
         whenClosed f' = whenClosed f \<and> whenClosed f = Some i \<and>
         \<not> chan_fired h (whenClosed f) \<and> chan_fired h' (whenClosed f') \<and>
         h' = h[i := True]))"
  apply (cases "whenClosed f")
   apply (simp add: chan_ok_def)
  apply (auto simp: chan_ok_def Chan_SetAndClose_def Let_def close_chan_def store_val_fields
      store_val_past_last chan_fired_def)
    apply (simp_all add: int_inc_def store_val_past)
  done

theorem SetAndClose_spec_witness:
  "chan_ok (\<lparr>whenClosed = Some 1, closeVal = Some (8::nat), isClosed = False,
            retain = 2, version = 5,
            past = [\<lparr>Version = 4, Val = Some 7\<rparr>, \<lparr>Version = 5, Val = Some 8\<rparr>]\<rparr>,
            [True, False]) \<and>
   Chan_SetAndClose None
     (\<lparr>whenClosed = Some 1, closeVal = Some (8::nat), isClosed = False,
       retain = 2, version = 5,
       past = [\<lparr>Version = 4, Val = Some 7\<rparr>, \<lparr>Version = 5, Val = Some 8\<rparr>]\<rparr>,
      [True, False])
   = Inr (None,
          \<lparr>whenClosed = Some 1, closeVal = None, isClosed = True,
           retain = 2, version = 6,
           past = [\<lparr>Version = 5, Val = Some 8\<rparr>, \<lparr>Version = 6, Val = None\<rparr>]\<rparr>,
          [True, True]) \<and>
   chan_ok (\<lparr>whenClosed = Some 1, closeVal = (None :: nat option), isClosed = True,
            retain = 2, version = 6,
            past = [\<lparr>Version = 5, Val = Some 8\<rparr>, \<lparr>Version = 6, Val = None\<rparr>]\<rparr>,
            [True, True]) \<and>
   Chan_SetAndClose (Some 9)
     (\<lparr>whenClosed = Some 1, closeVal = (None :: nat option), isClosed = True,
       retain = 2, version = 6,
       past = [\<lparr>Version = 5, Val = Some 8\<rparr>, \<lparr>Version = 6, Val = None\<rparr>]\<rparr>,
      [True, True])
   = Inr (Some ErrAlreadyClosed,
          \<lparr>whenClosed = Some 1, closeVal = None, isClosed = True,
           retain = 2, version = 6,
           past = [\<lparr>Version = 5, Val = Some 8\<rparr>, \<lparr>Version = 6, Val = None\<rparr>]\<rparr>,
          [True, True])"
  using SetAndClose_spec [of "\<lparr>whenClosed = Some 1, closeVal = Some (8::nat),
       isClosed = False, retain = 2, version = 5,
       past = [\<lparr>Version = 4, Val = Some 7\<rparr>, \<lparr>Version = 5, Val = Some 8\<rparr>]\<rparr>"
      "[True, False]" None]
    SetAndClose_spec [of "\<lparr>whenClosed = Some 1, closeVal = (None :: nat option),
       isClosed = True, retain = 2, version = 6,
       past = [\<lparr>Version = 5, Val = Some 8\<rparr>, \<lparr>Version = 6, Val = None\<rparr>]\<rparr>"
      "[True, True]" "Some 9"]
  by (simp add: chan_ok_def Chan_SetAndClose_def store_val_def record_past_def
      close_chan_def int_inc_def int_max_def)

text \<open>
  Claim C10. \<^verbatim>\<open>ReadPast(d)\<close> returns \<open>n = min (len d) (len past)\<close>; afterwards the
  first \<open>n\<close> elements of \<open>d\<close> are the first \<open>n\<close> entries of the history, index 0
  first, and the rest of \<open>d\<close> is untouched. When \<open>d\<close> is shorter than the history,
  \<open>d\<close> holds the \<open>len d\<close> oldest entries and the entries left out are the history's
  tail, which is not empty and ends with the history's last (most recent) entry.
\<close>

theorem ReadPast_spec:
  "Chan_ReadPast d f = (d', n) \<Longrightarrow>
     n = min (length d) (length (past f)) \<and>
     length d' = length d \<and>
     take n d' = take n (past f) \<and>
     drop n d' = drop n d \<and>
     (\<forall>i<n. d' ! i = past f ! i) \<and>
     (length d < length (past f) \<longrightarrow>
        d' = take (length d) (past f) \<and>
        past f = d' @ drop (length d) (past f) \<and>
        drop (length d) (past f) \<noteq> [] \<and>
        last (drop (length d) (past f)) = last (past f))"
  by (auto simp: Chan_ReadPast_def go_copy_def Let_def nth_append min_def)

theorem ReadPast_spec_witness:
  "Chan_ReadPast [\<lparr>Version = 0, Val = None\<rparr>, \<lparr>Version = 0, Val = None\<rparr>]
     \<lparr>whenClosed = Some 0, closeVal = Some (9::nat), isClosed = False, retain = 3,
      version = 6,
      past = [\<lparr>Version = 4, Val = Some 7\<rparr>, \<lparr>Version = 5, Val = Some 8\<rparr>,
              \<lparr>Version = 6, Val = Some 9\<rparr>]\<rparr>
   = ([\<lparr>Version = 4, Val = Some 7\<rparr>, \<lparr>Version = 5, Val = Some 8\<rparr>], 2) \<and>
   (2::nat) = min 2 3"
  using ReadPast_spec [of "[\<lparr>Version = 0, Val = None\<rparr>, \<lparr>Version = 0, Val = None\<rparr>]"
      "\<lparr>whenClosed = Some 0, closeVal = Some (9::nat), isClosed = False, retain = 3,
        version = 6,
        past = [\<lparr>Version = 4, Val = Some 7\<rparr>, \<lparr>Version = 5, Val = Some 8\<rparr>,
                \<lparr>Version = 6, Val = Some 9\<rparr>]\<rparr>"
      "[\<lparr>Version = 4, Val = Some 7\<rparr>, \<lparr>Version = 5, Val = Some 8\<rparr>]" 2]
  by (simp add: Chan_ReadPast_def go_copy_def)

section \<open>The signal and the closed flag\<close>

lemma NewChan_chan_ok: "NewChan cv r h0 = Inr s0 \<Longrightarrow> chan_ok s0"
proof -
  assume a: "NewChan cv r h0 = Inr s0"
  then have "r = 0" using NewChan_Inr_iff [of cv r h0] by blast
  with a show ?thesis by (auto simp: NewChan_zero chan_ok_def)
qed

lemma chan_ok_iff:
  "chan_ok (f, h) \<longleftrightarrow>
     (\<exists>i. whenClosed f = Some i \<and> i < length h \<and> (h ! i \<longleftrightarrow> isClosed f))"
  by (simp add: chan_ok_def split: option.splits)

lemma Close_chan_ok:
  assumes "chan_ok (f, h)"
  shows "\<exists>e f' h'. Chan_Close cv (f, h) = Inr (e, f', h') \<and> chan_ok (f', h')"
  using assms
  by (auto simp: chan_ok_iff Chan_Close_def Let_def close_chan_def store_val_fields)

lemma SetAndClose_chan_ok:
  assumes "chan_ok (f, h)"
  shows "\<exists>e f' h'. Chan_SetAndClose cv (f, h) = Inr (e, f', h') \<and> chan_ok (f', h')"
  using assms
  by (auto simp: chan_ok_iff Chan_SetAndClose_def Let_def close_chan_def store_val_fields)

lemma Open_chan_ok: "chan_ok (f, h) \<Longrightarrow> chan_ok (Chan_Open (f, h))"
  by (auto simp: chan_ok_iff Chan_Open_def make_chan_def Let_def)

lemma ReOpen_chan_ok: "chan_ok (f, h) \<Longrightarrow> chan_ok (Chan_ReOpen cv (f, h))"
  by (auto simp: chan_ok_iff Chan_ReOpen_def make_chan_def Let_def store_val_fields)

lemma store_val_chan_ok: "chan_ok (f, h) \<Longrightarrow> chan_ok (store_val cv f, h)"
  by (simp add: chan_ok_iff store_val_fields)

lemma step_chan_ok:
  assumes "chan_ok s"
  shows "\<exists>s'. step c s = Inr s' \<and> chan_ok s'"
proof -
  obtain f h where s: "s = (f, h)" by (cases s)
  show ?thesis
  proof (cases c)
    case (CallClose cv)
    with Close_chan_ok [of f h cv] assms s show ?thesis by auto
  next
    case (CallSetAndClose cv)
    with SetAndClose_chan_ok [of f h cv] assms s show ?thesis by auto
  next
    case (CallSet cv)
    with store_val_chan_ok [of f h cv] assms s show ?thesis by (simp add: Chan_Set_def)
  next
    case (CallSetIfOpen cv)
    with store_val_chan_ok [of f h cv] assms s show ?thesis by (simp add: Chan_SetIfOpen_def)
  next
    case CallOpen
    with Open_chan_ok [of f h] assms s show ?thesis by simp
  next
    case (CallReOpen cv)
    with ReOpen_chan_ok [of f h cv] assms s show ?thesis by simp
  qed (use assms in simp_all)
qed

lemma run_chan_ok:
  "chan_ok s \<Longrightarrow> \<exists>s'. run cs s = Inr s' \<and> chan_ok s'"
proof (induction cs arbitrary: s)
  case Nil
  then show ?case by simp
next
  case (Cons c cs)
  from step_chan_ok [OF Cons.prems, of c] obtain s1 where
    s1: "step c s = Inr s1" "chan_ok s1" by blast
  from Cons.IH [OF s1(2)] s1(1) show ?case by simp
qed

lemma chan_fired_append: "chan_fired h c \<Longrightarrow> chan_fired (h @ [False]) c"
  by (auto simp: chan_fired_def nth_append split: option.splits)

lemma chan_fired_close:
  "close_chan x h = Inr h' \<Longrightarrow> chan_fired h c \<Longrightarrow> chan_fired h' c"
  by (auto simp: chan_fired_def close_chan_def nth_list_update split: option.splits if_splits)

lemma step_fired_mono:
  assumes "step c s = Inr s'" and "chan_fired (snd s) x"
  shows "chan_fired (snd s') x"
proof -
  obtain f h where s: "s = (f, h)" by (cases s)
  show ?thesis
  proof (cases c)
    case (CallClose cv)
    with assms s show ?thesis
      by (auto simp: Chan_Close_def Let_def split: if_splits sum.splits dest: chan_fired_close)
  next
    case (CallSetAndClose cv)
    with assms s show ?thesis
      by (auto simp: Chan_SetAndClose_def Let_def split: if_splits sum.splits
          dest: chan_fired_close)
  next
    case CallOpen
    with assms s show ?thesis
      by (auto simp: Chan_Open_def make_chan_def Let_def chan_fired_append split: if_splits)
  next
    case (CallReOpen cv)
    with assms s show ?thesis
      by (auto simp: Chan_ReOpen_def make_chan_def Let_def chan_fired_append split: if_splits)
  qed (use assms in auto)
qed

lemma run_fired_mono:
  "run cs s = Inr s' \<Longrightarrow> chan_fired (snd s) x \<Longrightarrow> chan_fired (snd s') x"
proof (induction cs arbitrary: s)
  case Nil
  then show ?case by simp
next
  case (Cons c cs)
  then show ?case
    by (auto split: sum.splits dest: step_fired_mono)
qed

lemma chan_ok_fired:
  "chan_ok s \<Longrightarrow> chan_fired (snd s) (whenClosed (fst s)) \<longleftrightarrow> isClosed (fst s)"
  by (cases s) (auto simp: chan_ok_iff chan_fired_def)

text \<open>
  Claim C4. Take any latch that \<^verbatim>\<open>NewChan\<close> returned and any sequence of calls of
  \<^verbatim>\<open>Close\<close>, \<^verbatim>\<open>SetAndClose\<close>, \<^verbatim>\<open>Set\<close>, \<^verbatim>\<open>SetIfOpen\<close>, \<^verbatim>\<open>Read\<close>,
  \<^verbatim>\<open>ReadVersion\<close>, \<^verbatim>\<open>ReadPast\<close>, \<^verbatim>\<open>Open\<close>, \<^verbatim>\<open>ReOpen\<close> and \<^verbatim>\<open>WhenClosed\<close>.
  The sequence runs without a panic, so no channel is closed twice, and in the state it
  reaches the channel that \<^verbatim>\<open>WhenClosed\<close> returns is closed if and only if
  \<^verbatim>\<open>isClosed\<close> is set. Moreover, if a waiter has seen a channel \<open>c\<close> closed and,
  after any further calls, \<open>c\<close> is still the installed channel (the same open
  episode), then \<^verbatim>\<open>Read\<close> returns \<open>closed = true\<close>.
\<close>

theorem installed_channel_fired_iff_closed:
  assumes "NewChan cv r h0 = Inr s0"
  shows "\<exists>s1. run cs1 s0 = Inr s1 \<and>
           (chan_fired (snd s1) (Chan_WhenClosed (fst s1)) \<longleftrightarrow> isClosed (fst s1)) \<and>
           (\<exists>s2. run cs2 s1 = Inr s2 \<and>
              (\<forall>c. chan_fired (snd s1) c \<and> Chan_WhenClosed (fst s2) = c
                     \<longrightarrow> snd (Chan_Read (fst s2))))"
proof -
  from assms have "chan_ok s0" by (rule NewChan_chan_ok)
  from run_chan_ok [OF this, of cs1] obtain s1 where
    s1: "run cs1 s0 = Inr s1" "chan_ok s1" by blast
  from run_chan_ok [OF s1(2), of cs2] obtain s2 where
    s2: "run cs2 s1 = Inr s2" "chan_ok s2" by blast
  have "snd (Chan_Read (fst s2))"
    if "chan_fired (snd s1) c" "Chan_WhenClosed (fst s2) = c" for c
  proof -
    from run_fired_mono [OF s2(1) that(1)] have "chan_fired (snd s2) c" .
    with that(2) chan_ok_fired [OF s2(2)] show ?thesis
      by (simp add: Chan_WhenClosed_def Chan_Read_def)
  qed
  then have later: "\<forall>c. chan_fired (snd s1) c \<and> Chan_WhenClosed (fst s2) = c
      \<longrightarrow> snd (Chan_Read (fst s2))"
    by blast
  have now: "chan_fired (snd s1) (Chan_WhenClosed (fst s1)) \<longleftrightarrow> isClosed (fst s1)"
    using chan_ok_fired [OF s1(2)] by (simp add: Chan_WhenClosed_def)
  from s1(1) s2(1) now later show ?thesis by blast
qed

theorem installed_channel_fired_iff_closed_witness:
  "NewChan (Some (1::nat)) 0 [] =
     Inr (\<lparr>whenClosed = Some 0, closeVal = Some 1, isClosed = False,
           retain = 0, version = 0, past = []\<rparr>, [False]) \<and>
   (\<exists>s1. run [CallClose (Some (2::nat)), CallReOpen (Some 3), CallSet None, CallClose None]
           (\<lparr>whenClosed = Some 0, closeVal = Some 1, isClosed = False,
             retain = 0, version = 0, past = []\<rparr>, [False]) = Inr s1 \<and>
         s1 = (\<lparr>whenClosed = Some 1, closeVal = None, isClosed = True,
                retain = 0, version = 3, past = []\<rparr>, [True, True]) \<and>
         chan_fired (snd s1) (Chan_WhenClosed (fst s1)) \<and> isClosed (fst s1) \<and>
         (\<exists>s2. run [CallRead, CallOpen] s1 = Inr s2 \<and>
            s2 = (\<lparr>whenClosed = Some 2, closeVal = None, isClosed = False,
                   retain = 0, version = 3, past = []\<rparr>, [True, True, False]) \<and>
            \<not> chan_fired (snd s2) (Chan_WhenClosed (fst s2))))"
  using installed_channel_fired_iff_closed [of "Some (1::nat)" 0 "[]"
      "(\<lparr>whenClosed = Some 0, closeVal = Some 1, isClosed = False,
             retain = 0, version = 0, past = []\<rparr>, [False])"
      "[CallClose (Some (2::nat)), CallReOpen (Some 3), CallSet None, CallClose None]"
      "[CallRead, CallOpen]"]
  by (simp add: NewChan_zero Chan_Close_def Chan_ReOpen_def Chan_Set_def Chan_Open_def
      Chan_WhenClosed_def Chan_Read_def store_val_def record_past_def close_chan_def
      make_chan_def chan_fired_def int_inc_def int_max_def)

section \<open>The version counter\<close>


lemma step_version:
  assumes "step c s = Inr s'"
  shows "version (fst s') = (if mutates c (fst s) then int_inc (version (fst s)) else version (fst s))"
proof -
  obtain f h where s: "s = (f, h)" by (cases s)
  show ?thesis
  proof (cases c)
    case (CallClose cv)
    with assms s show ?thesis
      by (auto simp: Chan_Close_def Let_def store_val_fields split: if_splits sum.splits)
  next
    case (CallSetAndClose cv)
    with assms s show ?thesis
      by (auto simp: Chan_SetAndClose_def Let_def store_val_fields split: if_splits sum.splits)
  next
    case (CallSet cv)
    with assms s show ?thesis by (auto simp: Chan_Set_def store_val_fields)
  next
    case (CallSetIfOpen cv)
    with assms s show ?thesis by (auto simp: Chan_SetIfOpen_def store_val_fields)
  next
    case CallOpen
    with assms s show ?thesis
      by (auto simp: Chan_Open_def make_chan_def Let_def split: if_splits)
  next
    case (CallReOpen cv)
    with assms s show ?thesis
      by (auto simp: Chan_ReOpen_def make_chan_def Let_def store_val_fields split: if_splits)
  qed (use assms in auto)
qed



text \<open>At the largest \<^verbatim>\<open>int\<close> the increment wraps, which is why the version is
  required to be below it.\<close>

lemma Set_version_wraps:
  "version f = int_max \<Longrightarrow> version (snd (Chan_Set cv f)) = int_min"
  by (simp add: Chan_Set_def store_val_fields int_inc_def)

text \<open>
  The bound is met throughout any run that stays within the counter's range: a call
  raises the version by at most one, so a latch that \<^verbatim>\<open>NewChan\<close> returned is below the
  largest \<^verbatim>\<open>int\<close> after any sequence of fewer calls than that.
\<close>

lemma run_version_bound:
  assumes "run cs s = Inr s'" and "version (fst s) + int (length cs) \<le> int_max"
  shows "version (fst s) \<le> version (fst s') \<and>
         version (fst s') \<le> version (fst s) + int (length cs)"
  using assms
proof (induction cs arbitrary: s)
  case Nil
  then show ?case by simp
next
  case (Cons c cs)
  from Cons.prems(1) obtain s1 where s1: "step c s = Inr s1" "run cs s1 = Inr s'"
    by (auto split: sum.splits)
  from Cons.prems(2) have lt: "version (fst s) < int_max" by simp
  from step_version [OF s1(1)] lt
  have v1: "version (fst s) \<le> version (fst s1)" "version (fst s1) \<le> version (fst s) + 1"
    by (auto simp: int_inc_def split: if_splits)
  with Cons.prems(2) have "version (fst s1) + int (length cs) \<le> int_max" by simp
  from Cons.IH [OF s1(2) this] v1 show ?case by simp
qed

lemma NewChan_version_budget:
  assumes "NewChan cv r h0 = Inr s0" and "run cs s0 = Inr s" and "int (length cs) < int_max"
  shows "0 \<le> version (fst s) \<and> version (fst s) < int_max"
proof -
  from assms(1) have "r = 0" using NewChan_Inr_iff [of cv r h0] by blast
  with assms(1) have v0: "version (fst s0) = 0" by (auto simp: NewChan_zero)
  with assms(3) have "version (fst s0) + int (length cs) \<le> int_max" by simp
  from run_version_bound [OF assms(2) this] v0 assms(3) show ?thesis by simp
qed

section \<open>The history\<close>

lemma step_retain:
  assumes "step c s = Inr s'"
  shows "retain (fst s') = retain (fst s)"
proof -
  obtain f h where s: "s = (f, h)" by (cases s)
  show ?thesis
  proof (cases c)
    case (CallClose cv)
    with assms s show ?thesis
      by (auto simp: Chan_Close_def Let_def store_val_fields split: if_splits sum.splits)
  next
    case (CallSetAndClose cv)
    with assms s show ?thesis
      by (auto simp: Chan_SetAndClose_def Let_def store_val_fields split: if_splits sum.splits)
  next
    case (CallSet cv)
    with assms s show ?thesis by (auto simp: Chan_Set_def store_val_fields)
  next
    case (CallSetIfOpen cv)
    with assms s show ?thesis by (auto simp: Chan_SetIfOpen_def store_val_fields)
  next
    case CallOpen
    with assms s show ?thesis
      by (auto simp: Chan_Open_def make_chan_def Let_def split: if_splits)
  next
    case (CallReOpen cv)
    with assms s show ?thesis
      by (auto simp: Chan_ReOpen_def make_chan_def Let_def store_val_fields split: if_splits)
  qed (use assms in auto)
qed

lemma step_past_closeVal:
  assumes "step c s = Inr s'"
  shows "past (fst s') = (if mutates c (fst s) then past (store_val (call_val c) (fst s)) else past (fst s))"
    and "closeVal (fst s') = (if mutates c (fst s) then call_val c else closeVal (fst s))"
proof -
  obtain f h where s: "s = (f, h)" by (cases s)
  show "past (fst s') = (if mutates c (fst s) then past (store_val (call_val c) (fst s)) else past (fst s))"
  proof (cases c)
    case (CallClose cv)
    with assms s show ?thesis
      by (auto simp: Chan_Close_def Let_def store_val_past split: if_splits sum.splits)
  next
    case (CallSetAndClose cv)
    with assms s show ?thesis
      by (auto simp: Chan_SetAndClose_def Let_def store_val_past split: if_splits sum.splits)
  next
    case (CallSet cv)
    with assms s show ?thesis by (auto simp: Chan_Set_def)
  next
    case (CallSetIfOpen cv)
    with assms s show ?thesis by (auto simp: Chan_SetIfOpen_def)
  next
    case CallOpen
    with assms s show ?thesis
      by (auto simp: Chan_Open_def make_chan_def Let_def split: if_splits)
  next
    case (CallReOpen cv)
    with assms s show ?thesis
      by (auto simp: Chan_ReOpen_def make_chan_def Let_def split: if_splits)
  qed (use assms in auto)
  show "closeVal (fst s') = (if mutates c (fst s) then call_val c else closeVal (fst s))"
  proof (cases c)
    case (CallClose cv)
    with assms s show ?thesis
      by (auto simp: Chan_Close_def Let_def store_val_fields split: if_splits sum.splits)
  next
    case (CallSetAndClose cv)
    with assms s show ?thesis
      by (auto simp: Chan_SetAndClose_def Let_def store_val_fields split: if_splits sum.splits)
  next
    case (CallSet cv)
    with assms s show ?thesis by (auto simp: Chan_Set_def store_val_fields)
  next
    case (CallSetIfOpen cv)
    with assms s show ?thesis by (auto simp: Chan_SetIfOpen_def store_val_fields)
  next
    case CallOpen
    with assms s show ?thesis
      by (auto simp: Chan_Open_def make_chan_def Let_def split: if_splits)
  next
    case (CallReOpen cv)
    with assms s show ?thesis
      by (auto simp: Chan_ReOpen_def make_chan_def Let_def store_val_fields split: if_splits)
  qed (use assms in auto)
qed

lemma store_val_past_bound:
  assumes "0 < retain f" and "int (length (past f)) \<le> retain f"
  shows "past (store_val cv f) =
           (if int (length (past f)) < retain f then past f else tl (past f))
           @ [\<lparr>Version = int_inc (version f), Val = cv\<rparr>]"
    and "int (length (past (store_val cv f))) \<le> retain f"
proof -
  show "past (store_val cv f) =
           (if int (length (past f)) < retain f then past f else tl (past f))
           @ [\<lparr>Version = int_inc (version f), Val = cv\<rparr>]"
  proof (cases "past f")
    case Nil
    with assms show ?thesis by (simp add: store_val_past)
  next
    case (Cons a as)
    with assms show ?thesis by (simp add: store_val_past)
  qed
  with assms show "int (length (past (store_val cv f))) \<le> retain f"
    by (cases "past f") (auto split: if_splits)
qed

lemma step_history:
  assumes "step c s = Inr s'"
    and "0 < retain (fst s)" and "int (length (past (fst s))) \<le> retain (fst s)"
  shows "int (length (past (fst s'))) \<le> retain (fst s)"
    and "mutates c (fst s) \<Longrightarrow>
           past (fst s') =
             (if int (length (past (fst s))) < retain (fst s)
              then past (fst s) else tl (past (fst s)))
             @ [\<lparr>Version = version (fst s'), Val = closeVal (fst s')\<rparr>]"
    and "\<not> mutates c (fst s) \<Longrightarrow> past (fst s') = past (fst s)"
proof -
  note p = step_past_closeVal [OF assms(1)] and v = step_version [OF assms(1)]
  note b = store_val_past_bound [OF assms(2,3)]
  from p(1) b(2) assms(3) show "int (length (past (fst s'))) \<le> retain (fst s)"
    by (simp split: if_splits)
  from p v b(1) show "past (fst s') =
             (if int (length (past (fst s))) < retain (fst s)
              then past (fst s) else tl (past (fst s)))
             @ [\<lparr>Version = version (fst s'), Val = closeVal (fst s')\<rparr>]"
    if "mutates c (fst s)"
    using that by simp
  from p(1) show "past (fst s') = past (fst s)" if "\<not> mutates c (fst s)"
    using that by simp
qed

lemma run_history:
  assumes "chan_ok s" and "0 < retain (fst s)"
    and "int (length (past (fst s))) \<le> retain (fst s)"
  shows "\<exists>s'. run cs s = Inr s' \<and> chan_ok s' \<and> retain (fst s') = retain (fst s) \<and>
              int (length (past (fst s'))) \<le> retain (fst s)"
  using assms
proof (induction cs arbitrary: s)
  case Nil
  then show ?case by simp
next
  case (Cons c cs)
  from step_chan_ok [OF Cons.prems(1), of c] obtain s1 where
    s1: "step c s = Inr s1" "chan_ok s1" by blast
  note r = step_retain [OF s1(1)]
  from step_history(1) [OF s1(1) Cons.prems(2,3)] r
  have b: "int (length (past (fst s1))) \<le> retain (fst s1)" by simp
  from Cons.prems(2) r have "0 < retain (fst s1)" by simp
  from Cons.IH [OF s1(2) this b] r s1(1) show ?case by simp
qed

text \<open>
  The methods themselves keep the history as a bounded queue. From a consistent latch
  value with \<^verbatim>\<open>retain\<close> \<open>= R > 0\<close> and at most \<open>R\<close> entries, any sequence of calls
  leaves at most \<open>R\<close> entries; a call that replaces the payload drops the entry at
  index 0 when \<open>R\<close> entries were held and appends the pair of the new version and the
  new payload; any other call leaves the history as it was.
\<close>

lemma history_bounded_fifo:
  assumes "chan_ok s" and "0 < retain (fst s)"
    and "int (length (past (fst s))) \<le> retain (fst s)"
  shows "\<exists>s1. run cs s = Inr s1 \<and> retain (fst s1) = retain (fst s) \<and>
           int (length (past (fst s1))) \<le> retain (fst s) \<and>
           (\<exists>s2. step c s1 = Inr s2 \<and> retain (fst s2) = retain (fst s) \<and>
              int (length (past (fst s2))) \<le> retain (fst s) \<and>
              (mutates c (fst s1) \<longrightarrow>
                 past (fst s2) =
                   (if int (length (past (fst s1))) < retain (fst s)
                    then past (fst s1) else tl (past (fst s1)))
                   @ [\<lparr>Version = version (fst s2), Val = closeVal (fst s2)\<rparr>] \<and>
                 last (past (fst s2)) =
                   \<lparr>Version = version (fst s2), Val = closeVal (fst s2)\<rparr>) \<and>
              (\<not> mutates c (fst s1) \<longrightarrow> past (fst s2) = past (fst s1)))"
proof -
  from run_history [OF assms, of cs] obtain s1 where
    s1: "run cs s = Inr s1" "chan_ok s1" "retain (fst s1) = retain (fst s)"
      "int (length (past (fst s1))) \<le> retain (fst s)" by blast
  from step_chan_ok [OF s1(2), of c] obtain s2 where s2: "step c s1 = Inr s2" by blast
  from assms(2) s1(3) have pos: "0 < retain (fst s1)" by simp
  from s1(3,4) have bd: "int (length (past (fst s1))) \<le> retain (fst s1)" by simp
  note h = step_history [OF s2 pos bd]
  have r2: "retain (fst s2) = retain (fst s)" using step_retain [OF s2] s1(3) by simp
  have l2: "int (length (past (fst s2))) \<le> retain (fst s)" using h(1) s1(3) by simp
  have m: "mutates c (fst s1) \<longrightarrow>
                 past (fst s2) =
                   (if int (length (past (fst s1))) < retain (fst s)
                    then past (fst s1) else tl (past (fst s1)))
                   @ [\<lparr>Version = version (fst s2), Val = closeVal (fst s2)\<rparr>] \<and>
                 last (past (fst s2)) =
                   \<lparr>Version = version (fst s2), Val = closeVal (fst s2)\<rparr>"
    using h(2) s1(3) by simp
  have n: "\<not> mutates c (fst s1) \<longrightarrow> past (fst s2) = past (fst s1)"
    using h(3) by simp
  from s1(1,3,4) s2 r2 l2 m n show ?thesis by blast
qed

lemma history_bounded_fifo_example:
  "chan_ok (\<lparr>whenClosed = Some 0, closeVal = Some (8::nat), isClosed = False,
            retain = 2, version = 5,
            past = [\<lparr>Version = 4, Val = Some 7\<rparr>, \<lparr>Version = 5, Val = Some 8\<rparr>]\<rparr>,
            [False]) \<and>
   run [CallSet (Some 9), CallRead]
       (\<lparr>whenClosed = Some 0, closeVal = Some (8::nat), isClosed = False,
         retain = 2, version = 5,
         past = [\<lparr>Version = 4, Val = Some 7\<rparr>, \<lparr>Version = 5, Val = Some 8\<rparr>]\<rparr>,
        [False])
     = Inr (\<lparr>whenClosed = Some 0, closeVal = Some 9, isClosed = False,
             retain = 2, version = 6,
             past = [\<lparr>Version = 5, Val = Some 8\<rparr>, \<lparr>Version = 6, Val = Some 9\<rparr>]\<rparr>,
            [False]) \<and>
   step (CallReOpen None)
       (\<lparr>whenClosed = Some 0, closeVal = Some (9::nat), isClosed = False,
         retain = 2, version = 6,
         past = [\<lparr>Version = 5, Val = Some 8\<rparr>, \<lparr>Version = 6, Val = Some 9\<rparr>]\<rparr>,
        [False])
     = Inr (\<lparr>whenClosed = Some 0, closeVal = None, isClosed = False,
             retain = 2, version = 7,
             past = [\<lparr>Version = 6, Val = Some 9\<rparr>, \<lparr>Version = 7, Val = None\<rparr>]\<rparr>,
            [False])"
  using history_bounded_fifo [of "(\<lparr>whenClosed = Some 0, closeVal = Some (8::nat),
         isClosed = False, retain = 2, version = 5,
         past = [\<lparr>Version = 4, Val = Some 7\<rparr>, \<lparr>Version = 5, Val = Some 8\<rparr>]\<rparr>,
        [False])" "[CallSet (Some 9), CallRead]" "CallReOpen None"]
  by (simp add: chan_ok_def Chan_Set_def Chan_ReOpen_def store_val_def record_past_def
      int_inc_def int_max_def)

text \<open>
  No latch that the program can hold has such a \<^verbatim>\<open>retain\<close>: the field is assigned in
  \<^verbatim>\<open>NewChan\<close> only, which returns for \<open>retainVersions = 0\<close> alone, and with \<^verbatim>\<open>retain\<close>
  at 0 no method appends to the history.
\<close>

lemma run_from_NewChan_no_history:
  assumes "NewChan cv r h0 = Inr s0" and "run cs s0 = Inr s"
  shows "retain (fst s) = 0 \<and> past (fst s) = []"
proof -
  from assms(1) have "r = 0" using NewChan_Inr_iff [of cv r h0] by blast
  with assms(1) have init: "retain (fst s0) = 0 \<and> past (fst s0) = []"
    by (auto simp: NewChan_zero)
  have "retain (fst t) = 0 \<and> past (fst t) = [] \<Longrightarrow> run cs t = Inr s \<Longrightarrow>
        retain (fst s) = 0 \<and> past (fst s) = []" for t
  proof (induction cs arbitrary: t)
    case Nil
    then show ?case by simp
  next
    case (Cons c cs)
    from Cons.prems(2) obtain t1 where t1: "step c t = Inr t1" "run cs t1 = Inr s"
      by (auto split: sum.splits)
    from step_retain [OF t1(1)] step_past_closeVal(1) [OF t1(1)] Cons.prems(1)
    have "retain (fst t1) = 0 \<and> past (fst t1) = []"
      by (simp add: store_val_past)
    from Cons.IH [OF this t1(2)] show ?case .
  qed
  from this [OF init assms(2)] show ?thesis .
qed


section \<open>Closing a \<^verbatim>\<open>Loquet\<close> whose channel was never made\<close>

lemma lq_close_no_channel:
  assumes "lq_ch (fst s) = None" and "\<not> lq_isClosed (fst s)"
  shows "Loquet_Close v s =
           Inl (CloseOfNilChannel,
                (if v \<noteq> None then (fst s)\<lparr>lq_isClosed := True, lq_closeVal := v\<rparr>
                 else (fst s)\<lparr>lq_isClosed := True\<rparr>),
                snd s)"
  using assms by (cases s) (simp add: Loquet_Close_def close_chan_def Let_def)

lemma lq_close_closed: "lq_isClosed (fst s) \<Longrightarrow> Loquet_Close v s = Inr s"
  by (cases s) (simp add: Loquet_Close_def)

lemma lq_step_no_channel:
  assumes "c \<noteq> LqWhenClosed" and "lq_ch (fst s) = None"
  shows "lq_ch (fst (lq_after (lq_step c s))) = None"
    and "lq_isClosed (fst (lq_after (lq_step c s))) \<longleftrightarrow>
           lq_isClosed (fst s) \<or> (\<exists>w. c = LqClose w)"
proof -
  obtain f h where s: "s = (f, h)" by (cases s)
  from assms s show "lq_ch (fst (lq_after (lq_step c s))) = None"
    by (cases c)
      (auto simp: lq_after_def Loquet_Close_def Loquet_Set_def Loquet_SetIfOpen_def
        close_chan_def Let_def)
  from assms s show "lq_isClosed (fst (lq_after (lq_step c s))) \<longleftrightarrow>
           lq_isClosed (fst s) \<or> (\<exists>w. c = LqClose w)"
    by (cases c)
      (auto simp: lq_after_def Loquet_Close_def Loquet_Set_def Loquet_SetIfOpen_def
        close_chan_def Let_def)
qed

lemma lq_run_no_channel:
  assumes "LqWhenClosed \<notin> set cs" and "lq_ch (fst s) = None"
  shows "lq_ch (fst (snd (lq_run cs s))) = None \<and>
         (lq_isClosed (fst (snd (lq_run cs s))) \<longleftrightarrow>
            lq_isClosed (fst s) \<or> (\<exists>w. LqClose w \<in> set cs))"
  using assms
proof (induction cs arbitrary: s)
  case Nil
  then show ?case by simp
next
  case (Cons c cs)
  from Cons.prems(1) have c: "c \<noteq> LqWhenClosed" and cs: "LqWhenClosed \<notin> set cs" by auto
  let ?s1 = "lq_after (lq_step c s)"
  note st = lq_step_no_channel [OF c Cons.prems(2)]
  from Cons.IH [OF cs st(1)] st(2)
  have "lq_ch (fst (snd (lq_run cs ?s1))) = None \<and>
        (lq_isClosed (fst (snd (lq_run cs ?s1))) \<longleftrightarrow>
           lq_isClosed (fst s) \<or> (\<exists>w. LqClose w \<in> set (c # cs)))"
    by auto
  moreover have "snd (lq_run (c # cs) s) = snd (lq_run cs ?s1)"
    by (simp add: Let_def split: prod.splits)
  ultimately show ?case by simp
qed

text \<open>
  Claim C9, as amended. In the \<^verbatim>\<open>Loquet\<close> whose \<^verbatim>\<open>WhenClosed\<close> makes the channel
  lazily, \<^verbatim>\<open>Close(v)\<close> on the latch \<^verbatim>\<open>NewLoquet\<close> returned panics with a close of the
  nil channel, for every \<open>v\<close>, leaving \<^verbatim>\<open>isClosed\<close> set and a payload that is not nil
  stored. After any calls without a \<^verbatim>\<open>WhenClosed\<close>, panics recovered, the channel is
  still nil and the latch is marked closed exactly when a \<^verbatim>\<open>Close\<close> was among the
  calls; a \<^verbatim>\<open>Close\<close> that then finds the latch open panics in the same way, and one
  that finds it marked closed returns and changes nothing. So a \<^verbatim>\<open>Close\<close> that finds
  the latch open returns only if \<^verbatim>\<open>WhenClosed\<close> was called before; after one call of
  \<^verbatim>\<open>WhenClosed\<close> it does return, with the latch closed and the channel fired.
\<close>

theorem Loquet_first_Close_before_WhenClosed_panics:
  "Loquet_Close v (NewLoquet cv, h) =
     Inl (CloseOfNilChannel,
          \<lparr>lq_ch = None, lq_closeVal = (if v \<noteq> None then v else cv), lq_isClosed = True\<rparr>,
          h) \<and>
   (LqWhenClosed \<notin> set cs \<longrightarrow>
      (\<exists>os s. lq_run cs (NewLoquet cv, h) = (os, s) \<and>
         lq_ch (fst s) = None \<and>
         (lq_isClosed (fst s) \<longleftrightarrow> (\<exists>w. LqClose w \<in> set cs)) \<and>
         (\<not> lq_isClosed (fst s) \<longrightarrow>
            (\<exists>s'. Loquet_Close v s = Inl (CloseOfNilChannel, s'))) \<and>
         (lq_isClosed (fst s) \<longrightarrow> Loquet_Close v s = Inr s))) \<and>
   (\<exists>s. lq_run [LqWhenClosed, LqClose v] (NewLoquet cv, h) = ([None, None], s) \<and>
        lq_isClosed (fst s) \<and> chan_fired (snd s) (lq_ch (fst s)))"
proof -
  have fresh: "lq_ch (fst (NewLoquet cv, h)) = None" "\<not> lq_isClosed (fst (NewLoquet cv, h))"
    by (simp_all add: NewLoquet_def)
  have 1: "Loquet_Close v (NewLoquet cv, h) =
     Inl (CloseOfNilChannel,
          \<lparr>lq_ch = None, lq_closeVal = (if v \<noteq> None then v else cv), lq_isClosed = True\<rparr>,
          h)"
    using lq_close_no_channel [OF fresh, of v] by (simp add: NewLoquet_def)
  have 2: "\<exists>os s. lq_run cs (NewLoquet cv, h) = (os, s) \<and>
         lq_ch (fst s) = None \<and>
         (lq_isClosed (fst s) \<longleftrightarrow> (\<exists>w. LqClose w \<in> set cs)) \<and>
         (\<not> lq_isClosed (fst s) \<longrightarrow>
            (\<exists>s'. Loquet_Close v s = Inl (CloseOfNilChannel, s'))) \<and>
         (lq_isClosed (fst s) \<longrightarrow> Loquet_Close v s = Inr s)"
    if nw: "LqWhenClosed \<notin> set cs"
  proof -
    obtain os s where r: "lq_run cs (NewLoquet cv, h) = (os, s)"
      by (cases "lq_run cs (NewLoquet cv, h)")
    from lq_run_no_channel [OF nw fresh(1)] r fresh(2)
    have inv: "lq_ch (fst s) = None"
      "lq_isClosed (fst s) \<longleftrightarrow> (\<exists>w. LqClose w \<in> set cs)"
      by simp_all
    have op: "\<not> lq_isClosed (fst s) \<longrightarrow>
            (\<exists>s'. Loquet_Close v s = Inl (CloseOfNilChannel, s'))"
      using lq_close_no_channel [OF inv(1), of v] by auto
    have cl: "lq_isClosed (fst s) \<longrightarrow> Loquet_Close v s = Inr s"
      by (simp add: lq_close_closed)
    from r inv op cl show ?thesis by blast
  qed
  have 3: "\<exists>s. lq_run [LqWhenClosed, LqClose v] (NewLoquet cv, h) = ([None, None], s) \<and>
        lq_isClosed (fst s) \<and> chan_fired (snd s) (lq_ch (fst s))"
    by (simp add: NewLoquet_def Loquet_WhenClosed_def Loquet_Close_def make_chan_def
        close_chan_def chan_fired_def lq_after_def lq_panic_def Let_def)
  from 1 2 3 show ?thesis by blast
qed

theorem Loquet_first_Close_before_WhenClosed_panics_witness:
  "LqWhenClosed \<notin> set [LqSet (Some (2::nat)), LqRead, LqSetIfOpen None] \<and>
   lq_run [LqSet (Some (2::nat)), LqRead, LqSetIfOpen None] (NewLoquet (Some 1), [])
     = ([None, None, None], \<lparr>lq_ch = None, lq_closeVal = None, lq_isClosed = False\<rparr>, []) \<and>
   Loquet_Close (Some (3::nat)) (\<lparr>lq_ch = None, lq_closeVal = None, lq_isClosed = False\<rparr>, [])
     = Inl (CloseOfNilChannel,
            \<lparr>lq_ch = None, lq_closeVal = Some 3, lq_isClosed = True\<rparr>, []) \<and>
   Loquet_Close (Some (3::nat)) (NewLoquet (Some 1), [])
     = Inl (CloseOfNilChannel,
            \<lparr>lq_ch = None, lq_closeVal = Some 3, lq_isClosed = True\<rparr>, []) \<and>
   lq_run [LqWhenClosed, LqClose (Some (3::nat))] (NewLoquet (Some 1), [])
     = ([None, None], \<lparr>lq_ch = Some 0, lq_closeVal = Some 3, lq_isClosed = True\<rparr>, [True])"
  using Loquet_first_Close_before_WhenClosed_panics [of "Some (3::nat)" "Some 1" "[]"
      "[LqSet (Some (2::nat)), LqRead, LqSetIfOpen None]"]
  by (simp add: NewLoquet_def Loquet_WhenClosed_def Loquet_Close_def Loquet_Set_def
      Loquet_SetIfOpen_def make_chan_def close_chan_def lq_after_def lq_panic_def)

text \<open>
  The claim as first stated says more: that a \<^verbatim>\<open>Close\<close> returns without panic only if
  \<^verbatim>\<open>WhenClosed\<close> was called before it. A second \<^verbatim>\<open>Close\<close> refutes that: the first
  one panics on the nil channel with \<^verbatim>\<open>isClosed\<close> already set, and after a recover the
  second finds the latch marked closed and returns, \<^verbatim>\<open>WhenClosed\<close> never called.
\<close>

theorem Loquet_second_Close_returns_without_WhenClosed:
  "lq_run [LqClose (Some 3), LqClose (Some 4)] (NewLoquet (Some (1::nat)), [])
     = ([Some CloseOfNilChannel, None],
        \<lparr>lq_ch = None, lq_closeVal = Some 3, lq_isClosed = True\<rparr>, []) \<and>
   Loquet_Close (Some 4) (\<lparr>lq_ch = None, lq_closeVal = Some (3::nat), lq_isClosed = True\<rparr>, [])
     = Inr (\<lparr>lq_ch = None, lq_closeVal = Some 3, lq_isClosed = True\<rparr>, [])"
  by (simp add: NewLoquet_def Loquet_Close_def close_chan_def lq_after_def lq_panic_def)

end
